theory Spec2Isabelle
  imports Main "HOL-Library.Sublist"
begin

section \<open>The SPDX identifier checker of \<^verbatim>\<open>.github/workflows/check_spdx_identifiers.py\<close>\<close>

text \<open>
  The script walks a directory tree, skips directories and every path with an ignored
  segment, reads the first line of each remaining file (the second one after a shebang)
  and reports the files whose line lacks the marker. The model below follows the script
  statement by statement. What the script gets from Python's library is a parameter of
  the model: the sequence of paths that \<^verbatim>\<open>root.rglob("*")\<close> yields, what
  \<^verbatim>\<open>open\<close> and \<^verbatim>\<open>readline\<close> return or raise, and the text of a path.
\<close>

subsection \<open>Exceptions\<close>

text \<open>The exceptions the library calls of the script can raise; the script catches none.\<close>

datatype error = PermissionError | FileNotFoundError | OSError | UnicodeDecodeError

subsection \<open>Constants of the script\<close>

definition SPDX_IDENT :: string where
  "SPDX_IDENT = ''SPDX-License-Identifier: ''"

text \<open>The list \<^verbatim>\<open>ignored\<close> local to \<^verbatim>\<open>check\<close>, in the order of the source.\<close>

definition ignored :: "string list" where
  "ignored = [''.git'', ''.gitmodules'', ''.gitignore'',
              ''LICENSE'',
              ''zig-out'', ''.zig-cache'',
              ''third-party'']"

text \<open>
  The header is the f-string
  \<^verbatim>\<open>f"Files found without \"{SPDX_IDENT}\" in the first line:"\<close>;
  character \<open>0x22\<close> is the double quote.
\<close>

definition header :: string where
  "header = ''Files found without '' @ [CHR 0x22] @ SPDX_IDENT @ [CHR 0x22] @ '' in the first line:''"

subsection \<open>Strings\<close>

text \<open>\<^verbatim>\<open>s.startswith(p)\<close>.\<close>

definition startswith :: "string \<Rightarrow> string \<Rightarrow> bool" where
  "startswith s p = prefix p s"

text \<open>\<^verbatim>\<open>sub in s\<close> on strings: \<open>sub\<close> occurs in \<open>s\<close> as a contiguous substring.\<close>

fun str_in :: "string \<Rightarrow> string \<Rightarrow> bool" where
  "str_in sub [] = (sub = [])"
| "str_in sub (c # cs) = (prefix sub (c # cs) \<or> str_in sub cs)"

subsection \<open>Paths\<close>

text \<open>
  A path is the tuple \<^verbatim>\<open>path.parts\<close>. An absolute POSIX path has its root as the
  first part: \<open>/\<close>, or \<open>//\<close> when the path was written with exactly two leading
  slashes. \<open>path_str\<close> is \<^verbatim>\<open>str(path)\<close> of a POSIX path, which \<^verbatim>\<open>print(path)\<close>
  writes: the root, then the other parts joined by slashes; the path without parts is
  written as a dot.
\<close>

type_synonym path = "string list"

fun join_parts :: "string list \<Rightarrow> string" where
  "join_parts [] = []"
| "join_parts [p] = p"
| "join_parts (p # q # ps) = p @ ''/'' @ join_parts (q # ps)"

definition path_str :: "path \<Rightarrow> string" where
  "path_str ps =
     (case ps of
        [] \<Rightarrow> ''.''
      | p # rest \<Rightarrow>
          if p = ''/'' \<or> p = ''//'' then p @ join_parts rest else join_parts ps)"

subsection \<open>Files\<close>

text \<open>
  An open text file: the decoded text not yet consumed (line ends already translated to
  the newline character, as text mode does), and for each coming read call whether it
  raises (\<open>Some e\<close>) or not; a call beyond the list does not raise.
\<close>

record handle =
  remaining :: string
  faults :: "error option list"

text \<open>The text up to and including the first newline (character \<open>0x0A\<close>), and the rest.\<close>

fun read_until_newline :: "string \<Rightarrow> string \<times> string" where
  "read_until_newline [] = ([], [])"
| "read_until_newline (c # cs) =
     (if c = CHR 0x0A then ([c], cs)
      else (case read_until_newline cs of (l, r) \<Rightarrow> (c # l, r)))"

text \<open>
  \<^verbatim>\<open>f.readline()\<close>: raises when the next read is faulty, and otherwise returns the next
  line with its newline, or the rest of the text when no newline is left (the empty
  string at the end of the file).
\<close>

definition readline :: "handle \<Rightarrow> error + (string \<times> handle)" where
  "readline f =
     (case faults f of
        Some e # _ \<Rightarrow> Inl e
      | _ \<Rightarrow>
          (case read_until_newline (remaining f) of
             (line, rest) \<Rightarrow> Inr (line, \<lparr>remaining = rest, faults = tl (faults f)\<rparr>)))"

text \<open>
  One path yielded by \<^verbatim>\<open>root.rglob("*")\<close>: its parts below the root, what
  \<^verbatim>\<open>path.is_dir()\<close> answers, and what \<^verbatim>\<open>open(path, "r")\<close> does (raise, or give a
  handle).
\<close>

record entry =
  rel_parts :: "string list"
  is_dir :: bool
  opens :: "error + handle"

text \<open>
  The generator \<^verbatim>\<open>root.rglob("*")\<close>: the entries it yields, in its order, and the
  exception it raises after them, if any. \<^verbatim>\<open>path.is_dir()\<close> answers a boolean, and the
  standard output takes every line.
\<close>

record walk =
  entries :: "entry list"
  walk_error :: "error option"

subsection \<open>The function \<^verbatim>\<open>check\<close>\<close>

text \<open>The local \<^verbatim>\<open>problems_found\<close> and the lines printed so far.\<close>

record check_state =
  problems_found :: nat
  stdout :: "string list"

text \<open>
  The inner loop over \<^verbatim>\<open>ignored\<close> that sets \<^verbatim>\<open>skip\<close> and breaks at the first token
  found among the parts.
\<close>

fun skip_of :: "string list \<Rightarrow> path \<Rightarrow> bool" where
  "skip_of [] parts = False"
| "skip_of (ignored_str # rest) parts =
     (if ignored_str \<in> set parts then True else skip_of rest parts)"

text \<open>
  The \<^verbatim>\<open>with open(path, "r") as f\<close> block: the value of \<^verbatim>\<open>first_line\<close> after it, or
  the exception of \<^verbatim>\<open>open\<close> or of a \<^verbatim>\<open>readline\<close>.
\<close>

definition read_first_line :: "error + handle \<Rightarrow> error + string" where
  "read_first_line opened =
     (case opened of
        Inl e \<Rightarrow> Inl e
      | Inr f \<Rightarrow>
          (case readline f of
             Inl e \<Rightarrow> Inl e
           | Inr (first_line, f') \<Rightarrow>
               if startswith first_line ''#!''
               then (case readline f' of
                       Inl e \<Rightarrow> Inl e
                     | Inr (first_line', f'') \<Rightarrow> Inr first_line')
               else Inr first_line))"

text \<open>The body of \<^verbatim>\<open>if SPDX_IDENT not in first_line\<close>.\<close>

definition report :: "path \<Rightarrow> check_state \<Rightarrow> check_state" where
  "report p st =
     (let st1 = (if problems_found st = 0 then st\<lparr>stdout := stdout st @ [header]\<rparr> else st);
          st2 = st1\<lparr>problems_found := problems_found st1 + 1\<rparr>
      in st2\<lparr>stdout := stdout st2 @ [path_str p]\<rparr>)"

text \<open>The body of the loop for one path; the path is the root joined with the parts below it.\<close>

definition check_entry :: "path \<Rightarrow> entry \<Rightarrow> check_state \<Rightarrow> error + check_state" where
  "check_entry root en st =
     (let p = root @ rel_parts en in
      if is_dir en then Inr st
      else if skip_of ignored p then Inr st
      else (case read_first_line (opens en) of
              Inl e \<Rightarrow> Inl e
            | Inr first_line \<Rightarrow>
                if \<not> str_in SPDX_IDENT first_line then Inr (report p st) else Inr st))"

text \<open>The loop: it stops at the first exception, with the state reached.\<close>

fun check_loop :: "path \<Rightarrow> entry list \<Rightarrow> check_state \<Rightarrow> check_state \<times> error option" where
  "check_loop root [] st = (st, None)"
| "check_loop root (en # ens) st =
     (case check_entry root en st of
        Inl e \<Rightarrow> (st, Some e)
      | Inr st' \<Rightarrow> check_loop root ens st')"

text \<open>
  \<^verbatim>\<open>check(root)\<close>: what was printed, and either the exception that left the
  function or the boolean it returned.
\<close>

definition check :: "path \<Rightarrow> walk \<Rightarrow> string list \<times> (error + bool)" where
  "check root w =
     (case check_loop root (entries w) \<lparr>problems_found = 0, stdout = []\<rparr> of
        (st, Some e) \<Rightarrow> (stdout st, Inl e)
      | (st, None) \<Rightarrow>
          (case walk_error w of
             Some e \<Rightarrow> (stdout st, Inl e)
           | None \<Rightarrow> (stdout st, Inr (problems_found st \<noteq> 0))))"

text \<open>
  \<^verbatim>\<open>sys.exit(check(Path.cwd()))\<close>: the exit status is the integer of the boolean; an
  exception that nothing catches ends the interpreter with status 1.
\<close>

definition main :: "path \<Rightarrow> walk \<Rightarrow> string list \<times> int" where
  "main cwd w =
     (case check cwd w of
        (out, Inr b) \<Rightarrow> (out, if b then 1 else 0)
      | (out, Inl e) \<Rightarrow> (out, 1))"

subsection \<open>The terms of the specification\<close>

text \<open>
  The lines of a text, each with its newline; the last one has none when the text does
  not end in a newline. The empty text has no line.
\<close>

fun lines_of :: "string \<Rightarrow> string list" where
  "lines_of [] = []"
| "lines_of (c # cs) =
     (if c = CHR 0x0A then [c] # lines_of cs
      else (case lines_of cs of [] \<Rightarrow> [[c]] | l # ls \<Rightarrow> (c # l) # ls))"

text \<open>Line number \<open>n\<close>, counted from 0; the empty string when the text has no such line.\<close>

definition nth_line :: "nat \<Rightarrow> string \<Rightarrow> string" where
  "nth_line n t = (if n < length (lines_of t) then lines_of t ! n else [])"

text \<open>
  The line under test of the specification: the first line, or the second line when the
  first starts with \<open>#!\<close>.
\<close>

definition line_under_test :: "string \<Rightarrow> string" where
  "line_under_test t =
     (if prefix ''#!'' (nth_line 0 t) then nth_line 1 t else nth_line 0 t)"

text \<open>A handle none of whose reads raises.\<close>

definition fault_free :: "handle \<Rightarrow> bool" where
  "fault_free f = list_all (\<lambda>x. x = None) (faults f)"

text \<open>
  A checkable file: not a directory, and no ignored token among the parts of its path.
\<close>

definition checkable :: "path \<Rightarrow> entry \<Rightarrow> bool" where
  "checkable root en = (\<not> is_dir en \<and> set ignored \<inter> set (root @ rel_parts en) = {})"

text \<open>The file is read without an exception and its line lacks the marker.\<close>

definition lacks_marker :: "entry \<Rightarrow> bool" where
  "lacks_marker en =
     (case read_first_line (opens en) of
        Inl e \<Rightarrow> False
      | Inr l \<Rightarrow> \<not> str_in SPDX_IDENT l)"

text \<open>Opening or reading the file raises.\<close>

definition read_fails :: "entry \<Rightarrow> bool" where
  "read_fails en = (case read_first_line (opens en) of Inl e \<Rightarrow> True | Inr l \<Rightarrow> False)"

text \<open>The loop stops at this entry with an exception: a checkable file that cannot be read.\<close>

definition stops_at :: "path \<Rightarrow> entry \<Rightarrow> bool" where
  "stops_at root en = (checkable root en \<and> read_fails en)"

text \<open>The violations among some entries: the paths of the checkable files that lack the marker, in order.\<close>

definition violations :: "path \<Rightarrow> entry list \<Rightarrow> path list" where
  "violations root es =
     map (\<lambda>en. root @ rel_parts en) (filter (\<lambda>en. checkable root en \<and> lacks_marker en) es)"

text \<open>The entries before the first checkable file that cannot be read.\<close>

definition processed :: "path \<Rightarrow> entry list \<Rightarrow> entry list" where
  "processed root es = takeWhile (\<lambda>en. \<not> stops_at root en) es"

text \<open>The report of a list of violations: nothing, or the header and one line for each path.\<close>

definition render :: "path list \<Rightarrow> string list" where
  "render vs = (if vs = [] then [] else header # map path_str vs)"

text \<open>The run comes to its end: the traversal raises nothing and every checkable file is read.\<close>

definition completes :: "path \<Rightarrow> walk \<Rightarrow> bool" where
  "completes root w =
     (walk_error w = None \<and> list_all (\<lambda>en. \<not> stops_at root en) (entries w))"

text \<open>The exception of the first checkable file that cannot be read, if there is one.\<close>

definition first_error :: "path \<Rightarrow> entry list \<Rightarrow> error option" where
  "first_error root es =
     (case dropWhile (\<lambda>en. \<not> stops_at root en) es of
        [] \<Rightarrow> None
      | en # rest \<Rightarrow> (case read_first_line (opens en) of Inl e \<Rightarrow> Some e | Inr l \<Rightarrow> None))"

subsection \<open>Example files and trees\<close>

text \<open>A readable text file below the root.\<close>

definition text_file :: "string list \<Rightarrow> string \<Rightarrow> entry" where
  "text_file ps t = \<lparr>rel_parts = ps, is_dir = False, opens = Inr \<lparr>remaining = t, faults = []\<rparr>\<rparr>"

definition licensed_py :: entry where
  "licensed_py = text_file [''a.py'']
     (''# SPDX-License-Identifier: MIT'' @ [CHR 0x0A] @ ''print(1)'' @ [CHR 0x0A])"

definition unlicensed_py :: entry where
  "unlicensed_py = text_file [''b.py''] (''# no license here'' @ [CHR 0x0A])"

definition script_sh :: entry where
  "script_sh = text_file [''c.sh'']
     (''#!/bin/sh'' @ [CHR 0x0A] @ ''# SPDX-License-Identifier: MIT'' @ [CHR 0x0A])"


definition empty_py :: entry where
  "empty_py = text_file [''d.py''] []"


text \<open>The checker's own file: \<open>.github\<close> has \<open>.git\<close> as a substring and is no ignored segment.\<close>

definition workflow_py :: entry where
  "workflow_py = text_file [''.github'', ''workflows'', ''check_spdx_identifiers.py'']
     (''#!/usr/bin/env python3'' @ [CHR 0x0A] @ ''# SPDX-License-Identifier: MIT'' @ [CHR 0x0A])"

text \<open>Files that cannot be opened, or whose first read raises.\<close>

definition git_config :: entry where
  "git_config = \<lparr>rel_parts = [''.git'', ''config''], is_dir = False, opens = Inl PermissionError\<rparr>"

definition locked_txt :: entry where
  "locked_txt = \<lparr>rel_parts = [''locked.txt''], is_dir = False, opens = Inl PermissionError\<rparr>"


definition src_dir :: entry where
  "src_dir = \<lparr>rel_parts = [''src''], is_dir = True, opens = Inl OSError\<rparr>"

definition repo_root :: path where
  "repo_root = [''/'', ''home'', ''dev'', ''atium-lang'']"

definition vendored_root :: path where
  "vendored_root = [''/'', ''home'', ''dev'', ''third-party'', ''atium-lang'']"

definition st0 :: check_state where
  "st0 = \<lparr>problems_found = 0, stdout = []\<rparr>"

text \<open>Traversals of a repository: the entries in the order they are yielded.\<close>

definition tree_clean :: walk where
  "tree_clean =
     \<lparr>entries = [src_dir, licensed_py, git_config, script_sh, workflow_py], walk_error = None\<rparr>"

definition tree_dirty :: walk where
  "tree_dirty =
     \<lparr>entries = [src_dir, licensed_py, git_config, unlicensed_py, script_sh, empty_py],
      walk_error = None\<rparr>"

definition tree_locked :: walk where
  "tree_locked =
     \<lparr>entries = [licensed_py, unlicensed_py, locked_txt, empty_py], walk_error = None\<rparr>"



definition double_slash_root :: path where
  "double_slash_root = [''//'', ''tmp'', ''v'']"

section \<open>Properties\<close>

subsection \<open>Strings and lines\<close>

lemma str_in_iff: "str_in sub s \<longleftrightarrow> (\<exists>pre post. s = pre @ sub @ post)"
proof (induction s)
  case Nil
  then show ?case by auto
next
  case (Cons c cs)
  show ?case
  proof
    assume "str_in sub (c # cs)"
    then consider "prefix sub (c # cs)" | "str_in sub cs" by auto
    then show "\<exists>pre post. c # cs = pre @ sub @ post"
    proof cases
      case 1
      then obtain post where "c # cs = sub @ post" by (auto simp: prefix_def)
      then have "c # cs = [] @ sub @ post" by simp
      then show ?thesis by blast
    next
      case 2
      with Cons obtain pre post where "cs = pre @ sub @ post" by auto
      then have "c # cs = (c # pre) @ sub @ post" by simp
      then show ?thesis by blast
    qed
  next
    assume "\<exists>pre post. c # cs = pre @ sub @ post"
    then obtain pre post where eq: "c # cs = pre @ sub @ post" by blast
    show "str_in sub (c # cs)"
    proof (cases pre)
      case Nil
      with eq have "prefix sub (c # cs)" by (simp add: prefix_def)
      then show ?thesis by simp
    next
      case (Cons a pre')
      with eq have "cs = pre' @ sub @ post" by simp
      with Cons.IH have "str_in sub cs" by blast
      then show ?thesis by simp
    qed
  qed
qed

lemma path_str_single_slash:
  "path_str (repo_root @ [''src'', ''a.py'']) = ''/home/dev/atium-lang/src/a.py''"
  by (simp add: path_str_def repo_root_def)

lemma path_str_double_slash: "path_str (double_slash_root @ [''b.py'']) = ''//tmp/v/b.py''"
  by (simp add: path_str_def double_slash_root_def)

lemma path_str_relative: "path_str [''src'', ''a.py''] = ''src/a.py''"
  by (simp add: path_str_def)

lemma lines_of_unfold:
  "lines_of t =
     (if t = [] then []
      else fst (read_until_newline t) # lines_of (snd (read_until_newline t)))"
  by (induction t) (auto split: prod.splits list.splits)

lemma lines_of_Cons:
  "lines_of (c # cs) =
     fst (read_until_newline (c # cs)) # lines_of (snd (read_until_newline (c # cs)))"
  using lines_of_unfold [of "c # cs"] by simp

lemma read_until_newline_first: "fst (read_until_newline t) = nth_line 0 t"
proof (cases t)
  case Nil
  then show ?thesis by (simp add: nth_line_def)
next
  case (Cons c cs)
  then show ?thesis by (simp only: nth_line_def lines_of_Cons) simp
qed

lemma read_until_newline_second: "nth_line 0 (snd (read_until_newline t)) = nth_line 1 t"
proof (cases t)
  case Nil
  then show ?thesis by (simp add: nth_line_def)
next
  case (Cons c cs)
  have "nth_line 1 (c # cs) = nth_line 0 (snd (read_until_newline (c # cs)))"
    by (simp only: nth_line_def lines_of_Cons) simp
  with Cons show ?thesis by simp
qed

subsection \<open>Reading the line under test\<close>

lemma readline_fault_free:
  assumes "fault_free f"
  shows "readline f = Inr (nth_line 0 (remaining f),
           \<lparr>remaining = snd (read_until_newline (remaining f)), faults = tl (faults f)\<rparr>)"
proof -
  from assms have "\<And>e rest. faults f \<noteq> Some e # rest"
    by (auto simp: fault_free_def)
  then have "readline f =
      (case read_until_newline (remaining f) of
         (line, rest) \<Rightarrow> Inr (line, \<lparr>remaining = rest, faults = tl (faults f)\<rparr>))"
    unfolding readline_def by (auto split: list.splits option.splits)
  then show ?thesis
    by (simp add: case_prod_beta read_until_newline_first)
qed

lemma fault_free_tl: "fault_free f \<Longrightarrow> fault_free \<lparr>remaining = r, faults = tl (faults f)\<rparr>"
  by (cases "faults f") (simp_all add: fault_free_def)

lemma read_first_line_fault_free:
  assumes "fault_free f"
  shows "read_first_line (Inr f) = Inr (line_under_test (remaining f))"
  using readline_fault_free [OF assms]
    readline_fault_free [OF fault_free_tl [OF assms, of "snd (read_until_newline (remaining f))"]]
  by (simp add: read_first_line_def line_under_test_def startswith_def read_until_newline_second)

subsection \<open>One step of the loop\<close>

lemma skip_of_iff: "skip_of toks ps \<longleftrightarrow> set toks \<inter> set ps \<noteq> {}"
  by (induction toks) auto

lemma check_entry_not_checkable: "\<not> checkable root en \<Longrightarrow> check_entry root en st = Inr st"
  by (auto simp: check_entry_def checkable_def skip_of_iff Let_def)

lemma check_entry_checkable:
  "checkable root en \<Longrightarrow> check_entry root en st =
     (case read_first_line (opens en) of
        Inl e \<Rightarrow> Inl e
      | Inr l \<Rightarrow> if str_in SPDX_IDENT l then Inr st else Inr (report (root @ rel_parts en) st))"
  by (auto simp: check_entry_def checkable_def skip_of_iff Let_def split: sum.splits)

lemma problems_found_report: "problems_found (report p st) = problems_found st + 1"
  by (simp add: report_def Let_def)

lemma report_changes: "report p st \<noteq> st"
proof
  assume "report p st = st"
  then have "problems_found (report p st) = problems_found st" by simp
  then show False by (simp add: problems_found_report)
qed

subsection \<open>The whole loop\<close>

lemma check_loop_char:
  "check_loop root es st =
     (fold report (violations root (processed root es)) st, first_error root es)"
proof (induction es arbitrary: st)
  case Nil
  show ?case by (simp add: violations_def processed_def first_error_def)
next
  case (Cons en es)
  show ?case
  proof (cases "checkable root en")
    case False
    then have "\<not> stops_at root en" by (simp add: stops_at_def)
    with False show ?thesis
      using Cons.IH [of st]
      by (simp add: check_entry_not_checkable violations_def processed_def first_error_def)
  next
    case True
    show ?thesis
    proof (cases "read_first_line (opens en)")
      case (Inl e)
      with True have "stops_at root en" by (simp add: stops_at_def read_fails_def)
      with True Inl show ?thesis
        by (simp add: check_entry_checkable violations_def processed_def first_error_def)
    next
      case (Inr l)
      with True have "\<not> stops_at root en" by (simp add: stops_at_def read_fails_def)
      with True Inr show ?thesis
        using Cons.IH [of st] Cons.IH [of "report (root @ rel_parts en) st"]
        by (simp add: check_entry_checkable violations_def processed_def first_error_def
            lacks_marker_def)
    qed
  qed
qed

lemma problems_found_fold_report:
  "problems_found (fold report vs st) = problems_found st + length vs"
  by (induction vs arbitrary: st) (simp_all add: report_def Let_def)

lemma stdout_fold_report:
  "stdout (fold report vs st) =
     stdout st @ (if problems_found st = 0 \<and> vs \<noteq> [] then [header] else []) @ map path_str vs"
  by (induction vs arbitrary: st) (simp_all add: report_def Let_def)

lemma check_char:
  "check root w =
     (render (violations root (processed root (entries w))),
      case first_error root (entries w) of
        Some e \<Rightarrow> Inl e
      | None \<Rightarrow> (case walk_error w of
                   Some e \<Rightarrow> Inl e
                 | None \<Rightarrow> Inr (violations root (processed root (entries w)) \<noteq> [])))"
  by (simp add: check_def check_loop_char stdout_fold_report problems_found_fold_report render_def
      split: option.splits)

subsection \<open>Runs that come to their end\<close>

lemma completes_iff:
  "completes root w \<longleftrightarrow> walk_error w = None \<and> processed root (entries w) = entries w"
  by (auto simp: completes_def processed_def list_all_iff takeWhile_eq_all_conv)

lemma first_error_None_iff:
  "first_error root es = None \<longleftrightarrow> processed root es = es"
proof -
  let ?P = "\<lambda>en. \<not> stops_at root en"
  show ?thesis
  proof (cases "dropWhile ?P es")
    case Nil
    then have "\<forall>x\<in>set es. ?P x" by (simp only: dropWhile_eq_Nil_conv)
    then have "takeWhile ?P es = es" by (simp only: takeWhile_eq_all_conv)
    moreover have "first_error root es = None"
      unfolding first_error_def Nil by simp
    ultimately show ?thesis by (simp add: processed_def)
  next
    case (Cons en rest)
    then have "\<not> ?P en" using hd_dropWhile [of ?P es] by simp
    then have "first_error root es \<noteq> None"
      using Cons by (auto simp: first_error_def stops_at_def read_fails_def split: sum.splits)
    moreover have "takeWhile ?P es \<noteq> es"
      using Cons by (metis dropWhile_eq_Nil_conv list.distinct(1) takeWhile_eq_all_conv)
    ultimately show ?thesis unfolding processed_def by blast
  qed
qed

lemma check_completes:
  assumes "completes root w"
  shows "check root w =
           (render (violations root (entries w)), Inr (violations root (entries w) \<noteq> []))"
proof -
  from assms have "walk_error w = None" "processed root (entries w) = entries w"
    by (simp_all add: completes_iff)
  moreover from this have "first_error root (entries w) = None"
    by (simp add: first_error_None_iff)
  ultimately show ?thesis by (simp add: check_char)
qed


lemma violations_nonempty_iff:
  "violations root es \<noteq> [] \<longleftrightarrow> (\<exists>en\<in>set es. checkable root en \<and> lacks_marker en)"
  by (auto simp: violations_def filter_empty_conv)

subsection \<open>The result of \<^verbatim>\<open>check\<close>\<close>

text \<open>
  Claim C1. In a run that comes to its end (the traversal raises nothing and every
  checkable file is read), \<^verbatim>\<open>check(root)\<close> returns true if and only if at least one
  checkable file, a non-directory entry under the root that survives the ignore filter,
  is a violation; it returns false when every checkable file passes the marker test.
\<close>
theorem check_true_iff_violation:
  assumes "completes root w"
  shows "snd (check root w) = Inr (\<exists>en\<in>set (entries w). checkable root en \<and> lacks_marker en)"
  using check_completes [OF assms] by (simp add: violations_nonempty_iff)


theorem check_true_iff_violation_witness:
  "snd (check repo_root tree_dirty) = Inr True \<and> snd (check repo_root tree_clean) = Inr False"
proof -
  have c1: "completes repo_root tree_dirty" by code_simp
  have v1: "\<exists>en\<in>set (entries tree_dirty). checkable repo_root en \<and> lacks_marker en"
    by code_simp
  have c2: "completes repo_root tree_clean" by code_simp
  have v2: "\<not> (\<exists>en\<in>set (entries tree_clean). checkable repo_root en \<and> lacks_marker en)"
    by code_simp
  show ?thesis
    using check_true_iff_violation [OF c1] check_true_iff_violation [OF c2] v1 v2 by simp
qed

subsection \<open>The marker test of one file\<close>

text \<open>
  Claim C2. A file that survives the ignore filter and is read without an exception is
  a violation if and only if the marker does not occur anywhere in the line under test
  (the first line, or the second line when the first starts with \<open>#!\<close>): with the
  marker in that line the step leaves the state as it is, without it the step reports
  the path, which changes the state.
\<close>
theorem marker_decides_violation:
  assumes "checkable root en" and "opens en = Inr f" and "fault_free f"
  shows "check_entry root en st =
           (if \<exists>pre post. line_under_test (remaining f) = pre @ SPDX_IDENT @ post
            then Inr st else Inr (report (root @ rel_parts en) st))
         \<and> report (root @ rel_parts en) st \<noteq> st
         \<and> lacks_marker en =
             (\<not> (\<exists>pre post. line_under_test (remaining f) = pre @ SPDX_IDENT @ post))"
proof -
  from assms(2,3) have "read_first_line (opens en) = Inr (line_under_test (remaining f))"
    by (simp add: read_first_line_fault_free)
  then show ?thesis
    using assms(1)
    by (simp add: check_entry_checkable report_changes lacks_marker_def str_in_iff)
qed


theorem marker_decides_violation_witness:
  "check_entry repo_root licensed_py st0 = Inr st0
   \<and> check_entry repo_root unlicensed_py st0 = Inr (report (repo_root @ [''b.py'']) st0)
   \<and> check_entry repo_root script_sh st0 = Inr st0"
proof -
  let ?a = "\<lparr>remaining = ''# SPDX-License-Identifier: MIT'' @ [CHR 0x0A] @ ''print(1)'' @ [CHR 0x0A],
             faults = []\<rparr>"
  let ?b = "\<lparr>remaining = ''# no license here'' @ [CHR 0x0A], faults = []\<rparr>"
  let ?c = "\<lparr>remaining = ''#!/bin/sh'' @ [CHR 0x0A] @ ''# SPDX-License-Identifier: MIT'' @ [CHR 0x0A],
             faults = []\<rparr>"
  have a: "checkable repo_root licensed_py" "opens licensed_py = Inr ?a" "fault_free ?a"
    by code_simp+
  have b: "checkable repo_root unlicensed_py" "opens unlicensed_py = Inr ?b" "fault_free ?b"
    by code_simp+
  have c: "checkable repo_root script_sh" "opens script_sh = Inr ?c" "fault_free ?c"
    by code_simp+
  have ma: "str_in SPDX_IDENT (line_under_test (remaining ?a))" by code_simp
  have mb: "\<not> str_in SPDX_IDENT (line_under_test (remaining ?b))" by code_simp
  have mc: "str_in SPDX_IDENT (line_under_test (remaining ?c))" by code_simp
  have rb: "rel_parts unlicensed_py = [''b.py'']" by code_simp
  show ?thesis
    using marker_decides_violation [OF a, of st0] marker_decides_violation [OF b, of st0]
      marker_decides_violation [OF c, of st0] ma mb mc rb
    unfolding str_in_iff by simp
qed








lemma check_loop_drop_entry:
  assumes "\<And>s. check_entry root en s = Inr s"
  shows "check_loop root (pre @ en # post) st = check_loop root (pre @ post) st"
proof (induction pre arbitrary: st)
  case Nil
  show ?case by (simp add: assms)
next
  case (Cons x xs)
  show ?case
    by (cases "check_entry root x st") (simp_all add: Cons.IH)
qed

lemma ignored_not_checkable:
  "tok \<in> set ignored \<Longrightarrow> tok \<in> set (root @ rel_parts en) \<Longrightarrow> \<not> checkable root en"
  by (auto simp: checkable_def)

subsection \<open>The ignore filter\<close>

text \<open>
  Claim C5. A file whose path has an ignored token as one of its parts is skipped: the
  step returns the state unchanged whatever opening the file would do (so the file is
  never opened, printed or counted), the file is not checkable, and the run is the same
  as the run without that entry. The filter compares whole parts: a path is skipped
  exactly when one of its parts equals a token.
\<close>
theorem ignored_segment_skips_file:
  assumes "tok \<in> set ignored" and "tok \<in> set (root @ rel_parts en)"
  shows "(\<forall>x. check_entry root (en\<lparr>opens := x\<rparr>) st = Inr st)
         \<and> \<not> checkable root en
         \<and> check root (w\<lparr>entries := pre @ en # post\<rparr>) = check root (w\<lparr>entries := pre @ post\<rparr>)
         \<and> (skip_of ignored p \<longleftrightarrow> (\<exists>t\<in>set ignored. \<exists>seg\<in>set p. seg = t))"
proof -
  have nc: "\<not> checkable root (en\<lparr>opens := x\<rparr>)" for x
    using assms ignored_not_checkable [of tok root "en\<lparr>opens := x\<rparr>"] by simp
  then have a: "\<forall>x. check_entry root (en\<lparr>opens := x\<rparr>) st = Inr st"
    by (simp add: check_entry_not_checkable)
  have b: "\<not> checkable root en"
    using assms by (rule ignored_not_checkable)
  then have "\<And>s. check_entry root en s = Inr s"
    by (simp add: check_entry_not_checkable)
  then have "check_loop root (pre @ en # post) s = check_loop root (pre @ post) s" for s
    by (rule check_loop_drop_entry)
  then have c: "check root (w\<lparr>entries := pre @ en # post\<rparr>) = check root (w\<lparr>entries := pre @ post\<rparr>)"
    by (simp add: check_def split: prod.splits option.splits)
  have d: "skip_of ignored p \<longleftrightarrow> (\<exists>t\<in>set ignored. \<exists>seg\<in>set p. seg = t)"
    by (auto simp: skip_of_iff)
  from a b c d show ?thesis by blast
qed

theorem ignored_segment_skips_file_witness:
  "check_entry repo_root git_config st0 = Inr st0
   \<and> check repo_root tree_clean =
       check repo_root \<lparr>entries = [src_dir, licensed_py, script_sh, workflow_py], walk_error = None\<rparr>
   \<and> \<not> skip_of ignored (repo_root @ rel_parts workflow_py)"
proof -
  have t: "''.git'' \<in> set ignored" "''.git'' \<in> set (repo_root @ rel_parts git_config)"
    by code_simp+
  have o: "git_config\<lparr>opens := Inl PermissionError\<rparr> = git_config" by code_simp
  have e1: "tree_clean\<lparr>entries := [src_dir, licensed_py] @ git_config # [script_sh, workflow_py]\<rparr>
      = tree_clean"
    by (simp add: tree_clean_def)
  have e2: "tree_clean\<lparr>entries := [src_dir, licensed_py] @ [script_sh, workflow_py]\<rparr>
      = \<lparr>entries = [src_dir, licensed_py, script_sh, workflow_py], walk_error = None\<rparr>"
    by (simp add: tree_clean_def)
  have s: "\<not> (\<exists>t\<in>set ignored. \<exists>seg\<in>set (repo_root @ rel_parts workflow_py). seg = t)"
    by code_simp
  note th = ignored_segment_skips_file [OF t, where st = st0 and w = tree_clean
      and pre = "[src_dir, licensed_py]" and post = "[script_sh, workflow_py]"
      and p = "repo_root @ rel_parts workflow_py"]
  from th have "check_entry repo_root (git_config\<lparr>opens := Inl PermissionError\<rparr>) st0 = Inr st0"
    by blast
  moreover from th have "check repo_root
       (tree_clean\<lparr>entries := [src_dir, licensed_py] @ git_config # [script_sh, workflow_py]\<rparr>)
     = check repo_root (tree_clean\<lparr>entries := [src_dir, licensed_py] @ [script_sh, workflow_py]\<rparr>)"
    by blast
  moreover from th s have "\<not> skip_of ignored (repo_root @ rel_parts workflow_py)"
    by blast
  ultimately show ?thesis
    by (simp only: o e1 e2) simp
qed

subsection \<open>What is printed\<close>

text \<open>
  Claim C6. In every run the output is empty when no violation was found, and otherwise
  it is the header, once and first, followed by the violating paths, one line each, in
  the order of the traversal. The violations are those among the entries handled before
  the run stops, which are all the entries in a run that comes to its end.
\<close>
theorem header_once_before_paths:
  "fst (check root w) =
     (let vs = violations root (processed root (entries w))
      in if vs = [] then [] else header # map path_str vs)
   \<and> (completes root w \<longrightarrow> processed root (entries w) = entries w)"
  by (simp add: check_char render_def completes_iff)

theorem header_once_before_paths_witness:
  "fst (check repo_root tree_dirty) =
     [header, ''/home/dev/atium-lang/b.py'', ''/home/dev/atium-lang/d.py'']
   \<and> fst (check repo_root tree_clean) = []
   \<and> fst (check repo_root tree_locked) = [header, ''/home/dev/atium-lang/b.py'']"
proof -
  have c1: "completes repo_root tree_dirty" and c2: "completes repo_root tree_clean"
    by code_simp+
  have v1: "map path_str (violations repo_root (entries tree_dirty)) =
      [''/home/dev/atium-lang/b.py'', ''/home/dev/atium-lang/d.py'']"
    by code_simp
  have v2: "violations repo_root (entries tree_clean) = []"
    by code_simp
  have v3: "map path_str (violations repo_root (processed repo_root (entries tree_locked))) =
      [''/home/dev/atium-lang/b.py'']"
    by code_simp
  from header_once_before_paths [of repo_root tree_dirty] c1 v1
  have "fst (check repo_root tree_dirty) =
     [header, ''/home/dev/atium-lang/b.py'', ''/home/dev/atium-lang/d.py'']"
    by (auto simp: Let_def)
  moreover from header_once_before_paths [of repo_root tree_clean] c2 v2
  have "fst (check repo_root tree_clean) = []"
    by (auto simp: Let_def)
  moreover from header_once_before_paths [of repo_root tree_locked] v3
  have "fst (check repo_root tree_locked) = [header, ''/home/dev/atium-lang/b.py'']"
    by (auto simp: Let_def)
  ultimately show ?thesis by blast
qed

subsection \<open>The exit status\<close>

text \<open>
  Claim C7. With the current directory as the root, the exit status is the result of
  \<^verbatim>\<open>check\<close> as an integer: when \<^verbatim>\<open>check\<close> returns \<open>b\<close> the status is 1 for true and
  0 for false; the status is 0 exactly when \<^verbatim>\<open>check\<close> returned false; and in a run
  that comes to its end it is 0 exactly when there is no violation and nonzero exactly
  when there is one.
\<close>
theorem exit_code_is_result:
  "(snd (check cwd w) = Inr b \<longrightarrow> snd (main cwd w) = (if b then 1 else 0))
   \<and> (snd (main cwd w) = 0 \<longleftrightarrow> snd (check cwd w) = Inr False)
   \<and> (completes cwd w \<longrightarrow>
        (snd (main cwd w) = 0 \<longleftrightarrow> violations cwd (entries w) = [])
        \<and> (snd (main cwd w) \<noteq> 0 \<longleftrightarrow> violations cwd (entries w) \<noteq> []))"
proof -
  have a: "snd (check cwd w) = Inr b \<longrightarrow> snd (main cwd w) = (if b then 1 else 0)"
    by (cases "check cwd w") (auto simp: main_def)
  have b: "snd (main cwd w) = 0 \<longleftrightarrow> snd (check cwd w) = Inr False"
    by (cases "check cwd w") (auto simp: main_def split: sum.splits)
  have c: "(snd (main cwd w) = 0 \<longleftrightarrow> violations cwd (entries w) = [])
        \<and> (snd (main cwd w) \<noteq> 0 \<longleftrightarrow> violations cwd (entries w) \<noteq> [])" if "completes cwd w"
    using check_completes [OF that] by (simp add: main_def)
  from a b c show ?thesis by blast
qed

theorem exit_code_is_result_witness:
  "snd (main repo_root tree_clean) = 0 \<and> snd (main repo_root tree_dirty) = 1"
proof -
  have c1: "completes repo_root tree_dirty" and c2: "completes repo_root tree_clean"
    by code_simp+
  have v1: "violations repo_root (entries tree_dirty) \<noteq> []"
    by code_simp
  have v2: "violations repo_root (entries tree_clean) = []"
    by code_simp
  have r1: "snd (check repo_root tree_dirty) = Inr True"
    using check_completes [OF c1] v1 by simp
  from exit_code_is_result [of repo_root tree_clean False] c2 v2
  have "snd (main repo_root tree_clean) = 0" by blast
  moreover from exit_code_is_result [of repo_root tree_dirty True] r1
  have "snd (main repo_root tree_dirty) = 1" by simp
  ultimately show ?thesis by blast
qed



subsection \<open>Exceptions\<close>




subsection \<open>An ignored token in the path of the root\<close>

text \<open>
  Claim C10. The parts of the root are parts of every path the traversal yields. When
  one of them equals an ignored token, every file is skipped: nothing is printed, and
  \<^verbatim>\<open>check\<close> returns false whatever the files contain (or ends with the exception of
  the traversal, when it raises).
\<close>
theorem ignored_root_segment_skips_all:
  assumes "tok \<in> set ignored" and "tok \<in> set root"
  shows "check root w = ([], case walk_error w of None \<Rightarrow> Inr False | Some e \<Rightarrow> Inl e)"
proof -
  have nc: "\<not> checkable root en" for en
    using assms by (auto simp: checkable_def)
  then have "\<forall>en\<in>set (entries w). \<not> stops_at root en" by (simp add: stops_at_def)
  then have p: "processed root (entries w) = entries w"
    by (simp add: processed_def)
  then have f: "first_error root (entries w) = None" by (simp add: first_error_None_iff)
  have v: "violations root (entries w) = []"
    by (simp add: violations_def nc)
  show ?thesis
    by (simp add: check_char p f v render_def split: option.splits)
qed

theorem ignored_root_segment_skips_all_witness:
  "check vendored_root tree_dirty = ([], Inr False)
   \<and> check vendored_root tree_locked = ([], Inr False)"
proof -
  have t: "''third-party'' \<in> set ignored" "''third-party'' \<in> set vendored_root"
    by code_simp+
  have w1: "walk_error tree_dirty = None" and w2: "walk_error tree_locked = None"
    by code_simp+
  show ?thesis
    using ignored_root_segment_skips_all [OF t, of tree_dirty]
      ignored_root_segment_skips_all [OF t, of tree_locked] w1 w2
    by simp
qed

end
